theory Spec2Isabelle
  imports Main "HOL-Library.Word" "HOL-Library.Signed_Division"
begin

section \<open>Machine types\<close>

text \<open>
  Pintos is a 32-bit kernel: \<open>int\<close> and \<open>off_t\<close> (\<open>int32_t\<close>) are signed 32-bit values,
  \<open>block_sector_t\<close> (\<open>uint32_t\<close>) is unsigned. All three are 32-bit words; a signed
  comparison of the source is written on \<open>sint\<close>, and \<open>+\<close> and \<open>-\<close> wrap around.
  A pointer to a \<open>struct inode\<close> or to caller data is an address, with \<open>NULL\<close> the
  address 0; the inode itself belongs to the inode layer and is never read here.
\<close>

type_synonym c_int = "32 word"
type_synonym off_t = "32 word"
type_synonym block_sector_t = "32 word"
type_synonym byte = "8 word"
type_synonym inode_ptr = nat
type_synonym data_ptr = nat

abbreviation NULL :: nat where
  "NULL \<equiv> 0"

text \<open>
  C's \<open>%\<close> on \<open>int\<close> truncates towards zero: the remainder has the sign of the dividend.
  (Its one use divides by the sector size, a positive constant.)
\<close>

definition c_rem :: "c_int \<Rightarrow> c_int \<Rightarrow> c_int" where
  "c_rem a b = word_of_int (sint a smod sint b)"

text \<open>
  What stops a call instead of a return value: a store through a null pointer, or a
  failed \<open>ASSERT\<close> (a kernel panic).
\<close>

datatype fault = Null_dereference | Assertion_failed

section \<open>Disk scheduler (devices/disk.c)\<close>

record disk_request =
  sector :: c_int
  is_write :: bool
  data :: data_ptr
  deadline :: c_int

type_synonym disk_queue = "disk_request list"

text \<open>\<open>disk_init\<close>: \<open>list_init\<close> leaves the queue empty (the lock has no state of its own here:
  every enqueue and every dequeue below is one atomic step under it).\<close>

definition disk_init :: disk_queue where
  "disk_init = []"

definition disk_request_compare :: "disk_request \<Rightarrow> disk_request \<Rightarrow> bool" where
  "disk_request_compare req_a req_b \<longleftrightarrow> sint (deadline req_a) < sint (deadline req_b)"

text \<open>
  Modelled from the spec: \<open>list_insert_ordered\<close> of the kernel list library
  (lib/kernel/list.c) is not among the sources. The spec has the insertion as an insertion
  sort scanning from the front, with stable insertion: the scan stops at the first element
  the new one is less than, and the new element goes in front of it (at the back when
  there is none).
\<close>

fun list_insert_ordered :: "'a list \<Rightarrow> 'a \<Rightarrow> ('a \<Rightarrow> 'a \<Rightarrow> bool) \<Rightarrow> 'a list" where
  "list_insert_ordered [] elem less_func = [elem]"
| "list_insert_ordered (e # es) elem less_func =
     (if less_func elem e then elem # e # es else e # list_insert_ordered es elem less_func)"

text \<open>
  Modelled from the spec: \<open>list_empty\<close> of the kernel list library is not among the sources.
  It tells whether the queue holds no request.
\<close>

definition list_empty :: "'a list \<Rightarrow> bool" where
  "list_empty xs \<longleftrightarrow> xs = []"

text \<open>
  Modelled from the spec: \<open>list_pop_front\<close> of the kernel list library is not among the
  sources. It removes the front of the queue and returns it; an empty list has no front
  to return.
\<close>

fun list_pop_front :: "'a list \<Rightarrow> ('a \<times> 'a list) option" where
  "list_pop_front [] = None"
| "list_pop_front (e # es) = Some (e, es)"

text \<open>
  \<open>disk_schedule_request\<close>. \<open>malloc_ok\<close> says whether \<open>malloc\<close> returned a record. The source
  does not test the pointer: when \<open>malloc\<close> returns null, the next statement,
  \<open>req->sector = sector\<close>, stores through it.
\<close>

definition disk_schedule_request ::
  "bool \<Rightarrow> c_int \<Rightarrow> bool \<Rightarrow> data_ptr \<Rightarrow> c_int \<Rightarrow> disk_queue \<Rightarrow> fault + disk_queue" where
  "disk_schedule_request malloc_ok sector' is_write' data' deadline' q =
     (if \<not> malloc_ok then Inl Null_dereference
      else
        let req = \<lparr>sector = sector', is_write = is_write', data = data', deadline = deadline'\<rparr>
        in Inr (list_insert_ordered q req disk_request_compare))"

text \<open>
  One iteration of the \<open>while (true)\<close> loop of \<open>disk_process\<close>. With a request at the front
  it is removed, reported (\<open>printf\<close>, \<open>timer_sleep (100)\<close>) and freed: \<open>Serviced\<close>; on an empty
  queue the worker sleeps (\<open>timer_sleep (10)\<close>): \<open>Idle\<close>. The loop itself never returns, so
  the worker is its iterations, \<open>n\<close> of them in \<open>disk_process\<close>.
\<close>

datatype worker_event = Serviced disk_request | Idle

definition disk_process_iteration :: "disk_queue \<Rightarrow> disk_queue \<times> worker_event" where
  "disk_process_iteration q =
     (if \<not> list_empty q then
        (case list_pop_front q of
           Some (req, q') \<Rightarrow> (q', Serviced req)
         | None \<Rightarrow> (q, Idle))
      else (q, Idle))"

fun disk_process :: "nat \<Rightarrow> disk_queue \<Rightarrow> disk_queue \<times> worker_event list" where
  "disk_process 0 q = (q, [])"
| "disk_process (Suc n) q =
     (let (q', ev) = disk_process_iteration q;
          (q'', evs) = disk_process n q'
      in (q'', ev # evs))"

text \<open>
  Producers and the worker interleave, one atomic step at a time: a step is a call of
  \<open>disk_schedule_request\<close> or one iteration of the worker. A run stops at the first fault.
\<close>

datatype disk_step =
  Schedule bool c_int bool data_ptr c_int
| Worker

fun disk_run ::
  "disk_step list \<Rightarrow> disk_queue \<times> worker_event list \<Rightarrow> fault + disk_queue \<times> worker_event list" where
  "disk_run [] st = Inr st"
| "disk_run (Schedule ok s w d dl # steps) (q, evs) =
     (case disk_schedule_request ok s w d dl q of
        Inl f \<Rightarrow> Inl f
      | Inr q' \<Rightarrow> disk_run steps (q', evs))"
| "disk_run (Worker # steps) (q, evs) =
     (let (q', ev) = disk_process_iteration q in disk_run steps (q', evs @ [ev]))"

text \<open>The requests a run submitted, and those the worker serviced, each in order.\<close>

fun submitted :: "disk_step list \<Rightarrow> disk_request list" where
  "submitted [] = []"
| "submitted (Schedule ok s w d dl # steps) =
     \<lparr>sector = s, is_write = w, data = d, deadline = dl\<rparr> # submitted steps"
| "submitted (Worker # steps) = submitted steps"

fun serviced :: "worker_event list \<Rightarrow> disk_request list" where
  "serviced [] = []"
| "serviced (Serviced r # evs) = r # serviced evs"
| "serviced (Idle # evs) = serviced evs"

definition deadline_sorted :: "disk_request list \<Rightarrow> bool" where
  "deadline_sorted q = sorted_wrt (\<lambda>a b. sint (deadline a) \<le> sint (deadline b)) q"

section \<open>File handles (filesys/file.c)\<close>

text \<open>
  \<open>struct file\<close>. A \<open>struct file *\<close> is a \<open>file option\<close>: \<open>None\<close> is the null pointer and
  \<open>Some f\<close> points to a live handle whose fields are \<open>f\<close>; a function that writes a field
  returns the handle as it is afterwards.
\<close>

record "file" =
  inode :: inode_ptr
  pos :: off_t
  deny_write :: bool

text \<open>
  The calls \<open>file.c\<close> makes into the inode layer and the allocator, in the order made.
  \<open>inode_close\<close>, \<open>inode_deny_write\<close>, \<open>inode_allow_write\<close> and \<open>free\<close> return nothing, so a
  call is all there is to see of them here.
\<close>

datatype call =
  Inode_close inode_ptr
| Inode_deny_write inode_ptr
| Inode_allow_write inode_ptr
| Free "file option"

text \<open>\<open>calloc (1, sizeof *file)\<close>: a null pointer, or a handle with every field zero.\<close>

definition calloc_file :: "bool \<Rightarrow> file option" where
  "calloc_file ok = (if ok then Some \<lparr>inode = NULL, pos = 0, deny_write = False\<rparr> else None)"

definition file_open :: "bool \<Rightarrow> inode_ptr \<Rightarrow> file option \<times> call list" where
  "file_open calloc_ok inode' =
     (let file = calloc_file calloc_ok in
      if inode' \<noteq> NULL \<and> file \<noteq> None then
        (map_option (\<lambda>f. f\<lparr>inode := inode', pos := 0, deny_write := False\<rparr>) file, [])
      else (None, [Inode_close inode', Free file]))"

definition file_deny_write :: "file option \<Rightarrow> fault + file \<times> call list" where
  "file_deny_write file =
     (case file of
        None \<Rightarrow> Inl Assertion_failed
      | Some f \<Rightarrow>
          if \<not> deny_write f then Inr (f\<lparr>deny_write := True\<rparr>, [Inode_deny_write (inode f)])
          else Inr (f, []))"

definition file_allow_write :: "file option \<Rightarrow> fault + file \<times> call list" where
  "file_allow_write file =
     (case file of
        None \<Rightarrow> Inl Assertion_failed
      | Some f \<Rightarrow>
          if deny_write f then Inr (f\<lparr>deny_write := False\<rparr>, [Inode_allow_write (inode f)])
          else Inr (f, []))"

definition file_close :: "file option \<Rightarrow> fault + call list" where
  "file_close file =
     (if file \<noteq> None then
        (case file_allow_write file of
           Inl e \<Rightarrow> Inl e
         | Inr (f, calls) \<Rightarrow> Inr (calls @ [Inode_close (inode f), Free (Some f)]))
      else Inr [])"

text \<open>
  A sequence of \<open>file_deny_write\<close> and \<open>file_allow_write\<close> calls on one handle, and the
  denials it leaves outstanding at the inode: \<open>inode_deny_write\<close> calls less
  \<open>inode_allow_write\<close> calls.
\<close>

datatype toggle = Deny | Allow

fun toggles :: "toggle list \<Rightarrow> file \<Rightarrow> fault + file \<times> call list" where
  "toggles [] f = Inr (f, [])"
| "toggles (t # ts) f =
     (case (case t of Deny \<Rightarrow> file_deny_write (Some f) | Allow \<Rightarrow> file_allow_write (Some f)) of
        Inl e \<Rightarrow> Inl e
      | Inr (f', calls) \<Rightarrow>
          (case toggles ts f' of
             Inl e \<Rightarrow> Inl e
           | Inr (f'', calls') \<Rightarrow> Inr (f'', calls @ calls')))"

fun net_denials :: "call list \<Rightarrow> int" where
  "net_denials [] = 0"
| "net_denials (Inode_deny_write i # cs) = net_denials cs + 1"
| "net_denials (Inode_allow_write i # cs) = net_denials cs - 1"
| "net_denials (c # cs) = net_denials cs"

section \<open>Reading at an offset (file_read_at)\<close>

text \<open>
  What \<open>file.c\<close> uses and the sources do not hold is a parameter: the sector size
  \<open>BLOCK_SECTOR_SIZE\<close> (devices/block.h), the inode layer's \<open>byte_to_sector\<close>, \<open>inode_length\<close>
  and \<open>inode_write_at\<close>, and what each sector holds in the buffer cache (byte \<open>i\<close> of sector
  \<open>s\<close> is \<open>sector_bytes s i\<close>). \<open>byte_to_sector\<close> answers \<open>-1\<close>, as a \<open>block_sector_t\<close>, for an
  offset with no sector.
\<close>

record filesys =
  BLOCK_SECTOR_SIZE :: c_int
  byte_to_sector :: "inode_ptr \<Rightarrow> off_t \<Rightarrow> block_sector_t"
  inode_length :: "inode_ptr \<Rightarrow> off_t"
  inode_write_at :: "inode_ptr \<Rightarrow> (int \<Rightarrow> byte) \<Rightarrow> off_t \<Rightarrow> off_t \<Rightarrow> off_t"
  sector_bytes :: "block_sector_t \<Rightarrow> int \<Rightarrow> byte"

text \<open>
  Memory is a store from addresses to bytes, an address counted in bytes from the
  caller's \<open>buffer\<close>: address 0 is \<open>buffer[0]\<close>, and the store goes on beyond the \<open>size\<close>
  bytes the caller asked for. Whatever else the kernel keeps lies in the same store, the
  \<open>struct file\<close> that \<open>file\<close> points to among it.
\<close>

type_synonym memory = "int \<Rightarrow> byte"

datatype cache_call =
  Buffer_cache_read block_sector_t int
| Cache_read_ahead block_sector_t

text \<open>
  Modelled from the spec: \<open>buffer_cache_read\<close> and \<open>cache_read_ahead\<close> of the buffer cache
  are not among the sources. The spec has the fetch synchronous, always returning the
  full sector's current contents, into the buffer it is given: the \<open>BLOCK_SECTOR_SIZE\<close>
  bytes of the sector, from its first, are stored from the destination address on. The
  hint \<open>hint-read-ahead(sector)\<close> is fire-and-forget and never fails visibly: it changes
  nothing \<open>file.c\<close> can see and is known by the sector it was given.
\<close>

definition buffer_cache_read :: "filesys \<Rightarrow> block_sector_t \<Rightarrow> int \<Rightarrow> memory \<Rightarrow> memory" where
  "buffer_cache_read fs sector_idx dst m =
     (\<lambda>a. if dst \<le> a \<and> a < dst + sint (BLOCK_SECTOR_SIZE fs)
          then sector_bytes fs sector_idx (a - dst) else m a)"

text \<open>
  The state of a call of \<open>file_read_at\<close>: the locals the loop assigns (\<open>buffer_\<close> as the
  address \<open>buffer_ptr\<close>, \<open>size\<close> as \<open>size_left\<close>), memory, and the calls made to the cache so
  far. The handle is not part of it apart from memory: the source reads \<open>file->inode\<close> once,
  before the loop, and the handle is what memory holds where \<open>file\<close> points.
\<close>

record read_state =
  buffer_ptr :: int
  file_ofs :: off_t
  size_left :: off_t
  bytes_read :: off_t
  mem :: memory
  cache_calls :: "cache_call list"

text \<open>The body of the \<open>while\<close> loop; \<open>None\<close> is a \<open>break\<close>.\<close>

definition file_read_at_body :: "filesys \<Rightarrow> inode_ptr \<Rightarrow> read_state \<Rightarrow> read_state option" where
  "file_read_at_body fs inode' st =
     (let sector_idx = byte_to_sector fs inode' (file_ofs st) in
      if sector_idx = - 1 then None
      else
        let sector_ofs = c_rem (file_ofs st) (BLOCK_SECTOR_SIZE fs);
            inode_left = inode_length fs inode' - file_ofs st;
            sector_left = BLOCK_SECTOR_SIZE fs - sector_ofs;
            min_left = (if sint inode_left < sint sector_left then inode_left else sector_left);
            chunk_size = (if sint (size_left st) < sint min_left then size_left st else min_left)
        in
          if sint chunk_size \<le> 0 then None
          else
            Some (st\<lparr>mem := buffer_cache_read fs sector_idx (buffer_ptr st) (mem st),
                     buffer_ptr := buffer_ptr st + sint chunk_size,
                     file_ofs := file_ofs st + chunk_size,
                     size_left := size_left st - chunk_size,
                     bytes_read := bytes_read st + chunk_size,
                     cache_calls := cache_calls st @
                       [Buffer_cache_read sector_idx (buffer_ptr st), Cache_read_ahead sector_idx]\<rparr>))"

function file_read_at_loop :: "filesys \<Rightarrow> inode_ptr \<Rightarrow> read_state \<Rightarrow> read_state" where
  "file_read_at_loop fs inode' st =
     (if 0 < sint (size_left st) then
        (case file_read_at_body fs inode' st of
           None \<Rightarrow> st
         | Some st' \<Rightarrow> file_read_at_loop fs inode' st')
      else st)"
  by pat_completeness auto
termination
proof (relation "measure (\<lambda>(fs, inode', st). nat (sint (size_left st)))")
  show "wf (measure (\<lambda>(fs, inode', st). nat (sint (size_left st))))"
    by simp
next
  fix fs :: filesys and inode' :: inode_ptr and st st' :: read_state
  assume pos: "0 < sint (size_left st)" and body: "file_read_at_body fs inode' st = Some st'"
  define inode_left where "inode_left = inode_length fs inode' - file_ofs st"
  define sector_left where
    "sector_left = BLOCK_SECTOR_SIZE fs - c_rem (file_ofs st) (BLOCK_SECTOR_SIZE fs)"
  define min_left where
    "min_left = (if sint inode_left < sint sector_left then inode_left else sector_left)"
  define c where "c = (if sint (size_left st) < sint min_left then size_left st else min_left)"
  have le: "sint c \<le> sint (size_left st)"
    by (simp add: c_def)
  from body have gt: "0 < sint c" and st': "size_left st' = size_left st - c"
    unfolding file_read_at_body_def Let_def c_def min_left_def sector_left_def inode_left_def
    by (auto split: if_splits)
  have "sint (size_left st - c) = signed_take_bit 31 (sint (size_left st) - sint c)"
    by (simp add: sint_word_diff)
  also have "\<dots> = sint (size_left st) - sint c"
    using gt le sint_lt [of "size_left st"]
    by (intro signed_take_bit_int_eq_self) simp_all
  finally have "sint (size_left st') < sint (size_left st)"
    using gt st' by simp
  with pos show "((fs, inode', st'), (fs, inode', st))
      \<in> measure (\<lambda>(fs, inode', st). nat (sint (size_left st)))"
    by simp
qed

text \<open>
  \<open>file_read_at\<close>, given the fields \<open>file\<close> points to on entry (only \<open>file->inode\<close> is read,
  into the local \<open>inode\<close>): the result is the state the loop ends in; its \<open>bytes_read\<close> is
  the value returned, its \<open>mem\<close> and \<open>cache_calls\<close> what the call did to memory and asked of
  the cache.
\<close>

definition file_read_at :: "filesys \<Rightarrow> file \<Rightarrow> memory \<Rightarrow> off_t \<Rightarrow> off_t \<Rightarrow> read_state" where
  "file_read_at fs file buffer size' file_ofs' =
     file_read_at_loop fs (inode file)
       \<lparr>buffer_ptr = 0, file_ofs = file_ofs', size_left = size', bytes_read = 0,
        mem = buffer, cache_calls = []\<rparr>"

text \<open>
  The handle in memory. Pintos is built for the 32-bit x86: a pointer and an \<open>off_t\<close> are
  four bytes, least significant first, a \<open>bool\<close> is one byte, and \<open>struct file\<close> has \<open>inode\<close>
  at offset 0, \<open>pos\<close> at offset 4 and \<open>deny_write\<close> at offset 8. \<open>load_file p m\<close> is the
  handle memory \<open>m\<close> holds at address \<open>p\<close>.
\<close>

definition le32 :: "memory \<Rightarrow> int \<Rightarrow> 32 word" where
  "le32 m a =
     ucast (m a) + 256 * ucast (m (a + 1)) + 65536 * ucast (m (a + 2)) +
     16777216 * ucast (m (a + 3))"

definition load_file :: "int \<Rightarrow> memory \<Rightarrow> file" where
  "load_file p m = \<lparr>inode = unat (le32 m p), pos = le32 m (p + 4), deny_write = (m (p + 8) \<noteq> 0)\<rparr>"

text \<open>
  The call as C makes it, \<open>file\<close> an address: the handle is read from memory on entry,
  and the handle the caller finds afterwards is what memory holds at that address then.
\<close>

definition file_read_at_ptr :: "filesys \<Rightarrow> int \<Rightarrow> memory \<Rightarrow> off_t \<Rightarrow> off_t \<Rightarrow> read_state" where
  "file_read_at_ptr fs file_p m size' file_ofs' =
     file_read_at fs (load_file file_p m) m size' file_ofs'"

definition handle_after :: "int \<Rightarrow> read_state \<Rightarrow> file" where
  "handle_after file_p r = load_file file_p (mem r)"

text \<open>
  \<open>file_write_at\<close> hands the call on to the inode layer, which takes \<open>buffer\<close> as constant
  data: the value returned is the inode layer's, and \<open>file.c\<close> makes no store of its own.
\<close>

definition file_write_at :: "filesys \<Rightarrow> file \<Rightarrow> memory \<Rightarrow> off_t \<Rightarrow> off_t \<Rightarrow> off_t" where
  "file_write_at fs file buffer size' file_ofs' =
     inode_write_at fs (inode file) buffer size' file_ofs'"

text \<open>The sectors fetched and the sectors hinted, in order.\<close>

fun fetched :: "cache_call list \<Rightarrow> block_sector_t list" where
  "fetched [] = []"
| "fetched (Buffer_cache_read s dst # cs) = s # fetched cs"
| "fetched (Cache_read_ahead s # cs) = fetched cs"

fun hints :: "cache_call list \<Rightarrow> block_sector_t list" where
  "hints [] = []"
| "hints (Buffer_cache_read s dst # cs) = hints cs"
| "hints (Cache_read_ahead s # cs) = s # hints cs"

text \<open>
  The last fetch among the calls made to the cache: its sector and the address it stored
  to.
\<close>

fun last_fetch :: "cache_call list \<Rightarrow> (block_sector_t \<times> int) option" where
  "last_fetch [] = None"
| "last_fetch (Buffer_cache_read s dst # cs) =
     (case last_fetch cs of None \<Rightarrow> Some (s, dst) | Some later \<Rightarrow> Some later)"
| "last_fetch (Cache_read_ahead s # cs) = last_fetch cs"

text \<open>
  Memory after a list of cache calls: every fetch stores its whole sector at its
  destination, in order; a hint stores nothing.
\<close>

fun stores :: "filesys \<Rightarrow> cache_call list \<Rightarrow> memory \<Rightarrow> memory" where
  "stores fs [] m = m"
| "stores fs (Buffer_cache_read s dst # cs) m = stores fs cs (buffer_cache_read fs s dst m)"
| "stores fs (Cache_read_ahead s # cs) m = stores fs cs m"

text \<open>
  The write cursor keeps count: \<open>buffer_\<close> stands \<open>bytes_read\<close> bytes past \<open>buffer\<close>, and what
  is read and what is left to read are non-negative and together fit an \<open>off_t\<close>.
\<close>

definition cursor_ok :: "read_state \<Rightarrow> bool" where
  "cursor_ok st \<longleftrightarrow> 0 \<le> sint (bytes_read st) \<and> 0 \<le> sint (size_left st) \<and>
     sint (bytes_read st) + sint (size_left st) < 2 ^ 31 \<and>
     buffer_ptr st = sint (bytes_read st)"

section \<open>A file of three sectors\<close>

text \<open>
  A concrete file system to run the code on: sectors of 512 bytes, one inode of 1536 bytes
  whose offsets 0 to 1535 lie in sectors 0, 1 and 2 and whose other offsets have no
  sector; byte \<open>k\<close> of sector \<open>s\<close> is \<open>k + 7 * s\<close>, cut to eight bits.
\<close>

definition three_sector_file :: filesys where
  "three_sector_file =
     \<lparr>BLOCK_SECTOR_SIZE = 512,
      byte_to_sector = (\<lambda>i p.
        if 0 \<le> sint p \<and> sint p < 512 then 0
        else if 512 \<le> sint p \<and> sint p < 1024 then 1
        else if 1024 \<le> sint p \<and> sint p < 1536 then 2
        else - 1),
      inode_length = (\<lambda>i. 1536),
      inode_write_at = (\<lambda>i m n p. 0),
      sector_bytes = (\<lambda>s k. word_of_int (k + 7 * uint s))\<rparr>"

definition some_file :: "file" where
  "some_file = \<lparr>inode = 1, pos = 0, deny_write = False\<rparr>"

text \<open>
  A caller's memory: a buffer of 16 zero bytes at addresses 0 to 15 and, in the block
  that follows, at address 16, the handle \<open>some_file\<close> (inode pointer 1, position 0, writes
  not denied).
\<close>

definition handle_behind_buffer :: memory where
  "handle_behind_buffer = (\<lambda>a. if a = 16 then 1 else 0)"


section \<open>The disk queue is served by deadline\<close>

lemma list_insert_ordered_set:
  "set (list_insert_ordered q r f) = insert r (set q)"
  by (induction q) auto

lemma list_insert_ordered_sorted:
  "deadline_sorted q \<Longrightarrow> deadline_sorted (list_insert_ordered q r disk_request_compare)"
  unfolding deadline_sorted_def
  by (induction q) (auto simp: disk_request_compare_def list_insert_ordered_set)

lemma filter_later_deadlines:
  "\<forall>x\<in>set q. sint (deadline r) < sint (deadline x) \<Longrightarrow>
   filter (\<lambda>x. deadline x = deadline r) q = []"
  by (auto simp: filter_empty_conv)

lemma list_insert_ordered_fifo:
  "deadline_sorted q \<Longrightarrow>
   filter (\<lambda>x. deadline x = k) (list_insert_ordered q r disk_request_compare) =
   filter (\<lambda>x. deadline x = k) q @ (if deadline r = k then [r] else [])"
proof (induction q)
  case Nil
  show ?case by auto
next
  case (Cons a q)
  from Cons.prems have sorted_q: "deadline_sorted q"
    and a_le: "\<forall>x\<in>set q. sint (deadline a) \<le> sint (deadline x)"
    by (simp_all add: deadline_sorted_def)
  show ?case
  proof (cases "disk_request_compare r a")
    case True
    then have "\<forall>x\<in>set (a # q). sint (deadline r) < sint (deadline x)"
      using a_le by (auto simp: disk_request_compare_def)
    then have "filter (\<lambda>x. deadline x = deadline r) (a # q) = []"
      by (rule filter_later_deadlines)
    with True show ?thesis by auto
  next
    case False
    with Cons.IH [OF sorted_q] show ?thesis by simp
  qed
qed

lemma disk_process_iteration_Cons: "disk_process_iteration (r # q) = (q, Serviced r)"
  by (simp add: disk_process_iteration_def list_empty_def)

lemma disk_process_iteration_Nil: "disk_process_iteration [] = ([], Idle)"
  by (simp add: disk_process_iteration_def list_empty_def)

lemma disk_process_drain:
  "disk_process n q = (drop n q, map Serviced (take n q) @ replicate (n - length q) Idle)"
proof (induction n arbitrary: q)
  case 0
  show ?case by simp
next
  case (Suc n)
  show ?case
  proof (cases q)
    case Nil
    then show ?thesis using Suc [of "[]"] by (simp add: disk_process_iteration_Nil)
  next
    case (Cons r q')
    then show ?thesis using Suc [of q'] by (simp add: disk_process_iteration_Cons)
  qed
qed

lemma serviced_append: "serviced (xs @ ys) = serviced xs @ serviced ys"
  by (induction xs rule: serviced.induct) auto

lemma serviced_map_Serviced: "serviced (map Serviced rs) = rs"
  by (induction rs) auto

lemma serviced_replicate_Idle: "serviced (replicate n Idle) = []"
  by (induction n) auto

lemma deadline_sorted_tl: "deadline_sorted (r # q) \<Longrightarrow> deadline_sorted q"
  by (simp add: deadline_sorted_def)

lemma disk_run_invariant:
  "disk_run steps (q, evs) = Inr (q', evs') \<Longrightarrow> deadline_sorted q \<Longrightarrow>
   deadline_sorted q' \<and>
   (\<forall>k. filter (\<lambda>r. deadline r = k) (serviced evs' @ q') =
        filter (\<lambda>r. deadline r = k) (serviced evs @ q) @
        filter (\<lambda>r. deadline r = k) (submitted steps))"
proof (induction steps "(q, evs)" arbitrary: q evs rule: disk_run.induct)
  case 1
  then show ?case by simp
next
  case (2 ok s w d dl steps q evs)
  from "2.prems"(1) have ok: ok
    by (auto simp: disk_schedule_request_def split: if_splits)
  define r where "r = \<lparr>sector = s, is_write = w, data = d, deadline = dl\<rparr>"
  define q1 where "q1 = list_insert_ordered q r disk_request_compare"
  have sched: "disk_schedule_request ok s w d dl q = Inr q1"
    using ok by (simp add: disk_schedule_request_def q1_def r_def)
  have run: "disk_run steps (q1, evs) = Inr (q', evs')"
    using "2.prems"(1) sched by simp
  have sorted1: "deadline_sorted q1"
    unfolding q1_def using "2.prems"(2) by (rule list_insert_ordered_sorted)
  note IH = "2.hyps" [OF sched run sorted1]
  have "filter (\<lambda>x. deadline x = k) q1 =
      filter (\<lambda>x. deadline x = k) q @ (if deadline r = k then [r] else [])" for k
    unfolding q1_def using "2.prems"(2) by (rule list_insert_ordered_fifo)
  with IH show ?case
    by (simp add: r_def)
next
  case (3 steps q evs)
  show ?case
  proof (cases q)
    case Nil
    with "3.prems" have run: "disk_run steps ([], evs @ [Idle]) = Inr (q', evs')"
      by (simp add: disk_process_iteration_Nil)
    have "deadline_sorted []" by (simp add: deadline_sorted_def)
    from "3.hyps" [OF _ refl run this] Nil show ?thesis
      by (simp add: disk_process_iteration_Nil serviced_append)
  next
    case (Cons r q1)
    with "3.prems" have run: "disk_run steps (q1, evs @ [Serviced r]) = Inr (q', evs')"
      by (simp add: disk_process_iteration_Cons)
    have "deadline_sorted q1" using "3.prems"(2) Cons by (simp add: deadline_sorted_def)
    from "3.hyps" [OF _ refl run this] Cons show ?thesis
      by (simp add: disk_process_iteration_Cons serviced_append)
  qed
qed


text \<open>
  Claim C2. Whatever the interleaving of \<open>disk_schedule_request\<close> calls and worker
  iterations since \<open>disk_init\<close>, the queue is in non-decreasing deadline order after every
  step, and the requests of any one deadline stand, in what was serviced followed by what
  is queued, in the order they were submitted (stable FIFO insertion). Hence an iteration
  of the worker takes the front request, whose deadline is the least in the queue, and the
  worker left to drain the queue services its requests front to back: in non-decreasing
  deadline order, first submitted first among equal deadlines.
\<close>

theorem disk_queue_deadline_order:
  assumes "disk_run steps (disk_init, []) = Inr (q, evs)"
  shows "deadline_sorted q \<and>
    (\<forall>k. filter (\<lambda>r. deadline r = k) (serviced evs @ q) =
         filter (\<lambda>r. deadline r = k) (submitted steps)) \<and>
    (\<forall>r q'. disk_process_iteration q = (q', Serviced r) \<longrightarrow>
         q = r # q' \<and> (\<forall>x\<in>set q'. sint (deadline r) \<le> sint (deadline x))) \<and>
    (\<forall>n. fst (disk_process n q) = drop n q \<and>
         serviced (snd (disk_process n q)) = take n q \<and>
         deadline_sorted (take n q))"
proof -
  have "deadline_sorted disk_init"
    by (simp add: disk_init_def deadline_sorted_def)
  from disk_run_invariant [OF assms this]
  have sorted_q: "deadline_sorted q"
    and fifo: "\<forall>k. filter (\<lambda>r. deadline r = k) (serviced evs @ q) =
         filter (\<lambda>r. deadline r = k) (submitted steps)"
    by (simp_all add: disk_init_def)
  have front: "\<forall>r q'. disk_process_iteration q = (q', Serviced r) \<longrightarrow>
         q = r # q' \<and> (\<forall>x\<in>set q'. sint (deadline r) \<le> sint (deadline x))"
  proof (cases q)
    case Nil
    then show ?thesis by (simp add: disk_process_iteration_Nil)
  next
    case (Cons a q1)
    with sorted_q show ?thesis
      by (auto simp: disk_process_iteration_Cons deadline_sorted_def)
  qed
  have drain: "fst (disk_process n q) = drop n q \<and>
         serviced (snd (disk_process n q)) = take n q \<and>
         deadline_sorted (take n q)" for n
  proof -
    have "deadline_sorted (take n q)"
      using sorted_q unfolding deadline_sorted_def by (rule sorted_wrt_take)
    then show ?thesis
      by (simp add: disk_process_drain serviced_append serviced_map_Serviced
          serviced_replicate_Idle)
  qed
  from sorted_q fifo front drain show ?thesis
    by blast
qed

theorem disk_queue_deadline_order_witness:
  "disk_run [Schedule True 10 False 0 7, Schedule True 11 True 0 3, Schedule True 12 False 0 7,
             Worker, Schedule True 13 False 0 3] (disk_init, [])
     = Inr ([\<lparr>sector = 13, is_write = False, data = 0, deadline = 3\<rparr>,
             \<lparr>sector = 10, is_write = False, data = 0, deadline = 7\<rparr>,
             \<lparr>sector = 12, is_write = False, data = 0, deadline = 7\<rparr>],
            [Serviced \<lparr>sector = 11, is_write = True, data = 0, deadline = 3\<rparr>]) \<and>
   deadline_sorted [\<lparr>sector = 13, is_write = False, data = 0, deadline = 3\<rparr>,
             \<lparr>sector = 10, is_write = False, data = 0, deadline = 7\<rparr>,
             \<lparr>sector = 12, is_write = False, data = 0, deadline = 7\<rparr>] \<and>
   fst (disk_process 2 [\<lparr>sector = 13, is_write = False, data = 0, deadline = 3\<rparr>,
             \<lparr>sector = 10, is_write = False, data = 0, deadline = 7\<rparr>,
             \<lparr>sector = 12, is_write = False, data = 0, deadline = 7\<rparr>])
     = [\<lparr>sector = 12, is_write = False, data = 0, deadline = 7\<rparr>]"
proof -
  have run: "disk_run [Schedule True 10 False 0 7, Schedule True 11 True 0 3,
             Schedule True 12 False 0 7, Worker, Schedule True 13 False 0 3] (disk_init, [])
     = Inr ([\<lparr>sector = 13, is_write = False, data = 0, deadline = 3\<rparr>,
             \<lparr>sector = 10, is_write = False, data = 0, deadline = 7\<rparr>,
             \<lparr>sector = 12, is_write = False, data = 0, deadline = 7\<rparr>],
            [Serviced \<lparr>sector = 11, is_write = True, data = 0, deadline = 3\<rparr>])"
    by (simp add: disk_init_def disk_schedule_request_def disk_request_compare_def
        disk_process_iteration_def list_empty_def)
  from disk_queue_deadline_order [OF run]
  have "deadline_sorted [\<lparr>sector = 13, is_write = False, data = 0, deadline = 3\<rparr>,
             \<lparr>sector = 10, is_write = False, data = 0, deadline = 7\<rparr>,
             \<lparr>sector = 12, is_write = False, data = 0, deadline = 7\<rparr>]"
    and "fst (disk_process 2 [\<lparr>sector = 13, is_write = False, data = 0, deadline = 3\<rparr>,
             \<lparr>sector = 10, is_write = False, data = 0, deadline = 7\<rparr>,
             \<lparr>sector = 12, is_write = False, data = 0, deadline = 7\<rparr>])
      = drop 2 [\<lparr>sector = 13, is_write = False, data = 0, deadline = 3\<rparr>,
             \<lparr>sector = 10, is_write = False, data = 0, deadline = 7\<rparr>,
             \<lparr>sector = 12, is_write = False, data = 0, deadline = 7\<rparr>]"
    by blast+
  with run show ?thesis
    by simp
qed

text \<open>
  Claim C9. When \<open>malloc\<close> fails, \<open>disk_schedule_request\<close> reports nothing to its caller:
  it goes on to store through the null pointer. When \<open>malloc\<close> succeeds the request is
  inserted and the call does not fail.
\<close>

theorem disk_schedule_request_unchecked_malloc:
  "disk_schedule_request False s w d dl q = Inl Null_dereference \<and>
   disk_schedule_request True s w d dl q =
     Inr (list_insert_ordered q \<lparr>sector = s, is_write = w, data = d, deadline = dl\<rparr>
            disk_request_compare)"
  by (simp add: disk_schedule_request_def)

section \<open>Opening, closing and write denial\<close>

text \<open>
  Claim C5. \<open>file_open\<close> returns a null pointer exactly when the inode is null or the
  allocation failed. Every failure calls \<open>inode_close\<close> on the inode it was given, then
  frees what \<open>calloc\<close> returned, and nothing else; a success makes no call and returns a
  handle on the inode with \<open>pos = 0\<close> and \<open>deny_write = false\<close>.
\<close>

theorem file_open_result:
  "(fst (file_open calloc_ok i) = None \<longleftrightarrow> i = NULL \<or> \<not> calloc_ok) \<and>
   (fst (file_open calloc_ok i) = None \<longrightarrow>
      snd (file_open calloc_ok i) = [Inode_close i, Free (calloc_file calloc_ok)]) \<and>
   (fst (file_open calloc_ok i) \<noteq> None \<longrightarrow>
      file_open calloc_ok i = (Some \<lparr>inode = i, pos = 0, deny_write = False\<rparr>, []))"
  by (cases calloc_ok; cases "i = NULL") (simp_all add: file_open_def calloc_file_def Let_def)

theorem file_open_result_witness:
  "fst (file_open True NULL) = None \<and>
   snd (file_open True NULL) = [Inode_close NULL, Free (Some \<lparr>inode = NULL, pos = 0, deny_write = False\<rparr>)] \<and>
   fst (file_open False 5) = None \<and>
   snd (file_open False 5) = [Inode_close 5, Free None] \<and>
   file_open True 5 = (Some \<lparr>inode = 5, pos = 0, deny_write = False\<rparr>, [])"
  using file_open_result [of True NULL] file_open_result [of False 5] file_open_result [of True 5]
  by (simp add: calloc_file_def)

text \<open>
  Claim C8. \<open>file_close\<close> of a null pointer does nothing. Of a handle, it calls
  \<open>inode_allow_write\<close> exactly when the handle had denied writes, then \<open>inode_close\<close> on
  the handle's inode, then frees the handle, in that order.
\<close>

theorem file_close_order:
  "file_close None = Inr [] \<and>
   file_close (Some f) =
     Inr ((if deny_write f then [Inode_allow_write (inode f)] else []) @
          [Inode_close (inode f), Free (Some (f\<lparr>deny_write := False\<rparr>))])"
  by (simp add: file_close_def file_allow_write_def)

lemma file_deny_write_Some:
  "file_deny_write (Some f) =
     Inr (f\<lparr>deny_write := True\<rparr>, if deny_write f then [] else [Inode_deny_write (inode f)])"
  by (cases f) (simp add: file_deny_write_def)

lemma file_allow_write_Some:
  "file_allow_write (Some f) =
     Inr (f\<lparr>deny_write := False\<rparr>, if deny_write f then [Inode_allow_write (inode f)] else [])"
  by (cases f) (simp add: file_allow_write_def)

lemma net_denials_append: "net_denials (xs @ ys) = net_denials xs + net_denials ys"
  by (induction xs rule: net_denials.induct) simp_all

lemma toggles_net:
  "\<exists>f' cs. toggles ts f = Inr (f', cs) \<and> inode f' = inode f \<and> pos f' = pos f \<and>
     of_bool (deny_write f) + net_denials cs = of_bool (deny_write f')"
proof (induction ts arbitrary: f)
  case Nil
  show ?case by simp
next
  case (Cons t ts)
  show ?case
  proof (cases t)
    case Deny
    from Cons [of "f\<lparr>deny_write := True\<rparr>"] obtain f' cs where
      "toggles ts (f\<lparr>deny_write := True\<rparr>) = Inr (f', cs)" "inode f' = inode f" "pos f' = pos f"
      "1 + net_denials cs = of_bool (deny_write f')"
      by auto
    with Deny show ?thesis
      by (simp add: file_deny_write_Some net_denials_append)
  next
    case Allow
    from Cons [of "f\<lparr>deny_write := False\<rparr>"] obtain f' cs where
      "toggles ts (f\<lparr>deny_write := False\<rparr>) = Inr (f', cs)" "inode f' = inode f" "pos f' = pos f"
      "net_denials cs = of_bool (deny_write f')"
      by auto
    with Allow show ?thesis
      by (simp add: file_allow_write_Some net_denials_append)
  qed
qed

text \<open>
  Claim C6. \<open>file_deny_write\<close> leaves the handle denying and calls \<open>inode_deny_write\<close> only
  when it was not; \<open>file_allow_write\<close> leaves it allowing and calls \<open>inode_allow_write\<close>
  only when it was denying. A redundant call changes neither the handle nor the calls
  made. After any sequence of the two on a handle, its inode and position are what they
  were and the denials outstanding at the inode on its behalf (the one it held at the
  start, if any, and those the sequence added less those it removed) are one if the handle
  denies and none otherwise: never more than one.
\<close>

theorem deny_allow_idempotent:
  "file_deny_write (Some f) =
     Inr (f\<lparr>deny_write := True\<rparr>, if deny_write f then [] else [Inode_deny_write (inode f)]) \<and>
   file_allow_write (Some f) =
     Inr (f\<lparr>deny_write := False\<rparr>, if deny_write f then [Inode_allow_write (inode f)] else []) \<and>
   (deny_write f \<longrightarrow> file_deny_write (Some f) = Inr (f, [])) \<and>
   (\<not> deny_write f \<longrightarrow> file_allow_write (Some f) = Inr (f, [])) \<and>
   (\<exists>f' cs. toggles ts f = Inr (f', cs) \<and> inode f' = inode f \<and> pos f' = pos f \<and>
      of_bool (deny_write f) + net_denials cs = of_bool (deny_write f') \<and>
      of_bool (deny_write f) + net_denials cs \<in> {0, 1})"
proof -
  from toggles_net [of ts f] obtain f' cs where
    t: "toggles ts f = Inr (f', cs)" "inode f' = inode f" "pos f' = pos f"
      "of_bool (deny_write f) + net_denials cs = of_bool (deny_write f')"
    by blast
  from t(4) have "of_bool (deny_write f) + net_denials cs \<in> {0, 1}"
    by (cases "deny_write f'") simp_all
  moreover have "deny_write f \<longrightarrow> file_deny_write (Some f) = Inr (f, [])"
    and "\<not> deny_write f \<longrightarrow> file_allow_write (Some f) = Inr (f, [])"
    by (simp_all add: file_deny_write_def file_allow_write_def)
  ultimately show ?thesis
    using t file_deny_write_Some [of f] file_allow_write_Some [of f] by blast
qed

theorem deny_allow_idempotent_witness:
  "file_deny_write (Some \<lparr>inode = 3, pos = 0, deny_write = True\<rparr>) =
     Inr (\<lparr>inode = 3, pos = 0, deny_write = True\<rparr>, []) \<and>
   file_allow_write (Some \<lparr>inode = 3, pos = 0, deny_write = True\<rparr>) =
     Inr (\<lparr>inode = 3, pos = 0, deny_write = False\<rparr>, [Inode_allow_write 3]) \<and>
   toggles [Allow, Deny, Deny, Allow, Deny] \<lparr>inode = 3, pos = 0, deny_write = True\<rparr> =
     Inr (\<lparr>inode = 3, pos = 0, deny_write = True\<rparr>,
          [Inode_allow_write 3, Inode_deny_write 3, Inode_allow_write 3, Inode_deny_write 3]) \<and>
   of_bool True + net_denials
          [Inode_allow_write 3, Inode_deny_write 3, Inode_allow_write 3, Inode_deny_write 3]
     = (1 :: int)"
  using deny_allow_idempotent [of "\<lparr>inode = 3, pos = 0, deny_write = True\<rparr>"
      "[Allow, Deny, Deny, Allow, Deny]"]
  by (simp add: file_deny_write_def file_allow_write_def)

section \<open>The read loop\<close>

text \<open>The loop is unfolded one iteration at a time, by the three rules below.\<close>

declare file_read_at_loop.simps [simp del]

lemma loop_stop: "\<not> 0 < sint (size_left st) \<Longrightarrow> file_read_at_loop fs i st = st"
  by (simp add: file_read_at_loop.simps)

lemma loop_break: "file_read_at_body fs i st = None \<Longrightarrow> file_read_at_loop fs i st = st"
  by (simp add: file_read_at_loop.simps)

lemma loop_step:
  "0 < sint (size_left st) \<Longrightarrow> file_read_at_body fs i st = Some st' \<Longrightarrow>
   file_read_at_loop fs i st = file_read_at_loop fs i st'"
  by (simp add: file_read_at_loop.simps)


lemma sint32_range: "- (2 ^ 31) \<le> sint (x :: 32 word) \<and> sint x < 2 ^ 31"
  using sint_ge [of x] sint_lt [of x] by simp

lemma sint_diff_exact:
  "- (2 ^ 31) \<le> sint a - sint b \<Longrightarrow> sint a - sint b < 2 ^ 31 \<Longrightarrow>
   sint (a - b :: 32 word) = sint a - sint b"
  by (simp add: sint_word_diff signed_take_bit_int_eq_self)

lemma sint_add_exact:
  "- (2 ^ 31) \<le> sint a + sint b \<Longrightarrow> sint a + sint b < 2 ^ 31 \<Longrightarrow>
   sint (a + b :: 32 word) = sint a + sint b"
  by (simp add: sint_word_add signed_take_bit_int_eq_self)

lemma sint_word_of_int_exact:
  "- (2 ^ 31) \<le> k \<Longrightarrow> k < 2 ^ 31 \<Longrightarrow> sint (word_of_int k :: 32 word) = k"
  by (simp add: sint_sbintrunc' signed_take_bit_int_eq_self)

lemma smod_bounds:
  assumes "0 < (b::int)"
  shows "- b < a smod b \<and> a smod b < b"
proof -
  have m: "0 \<le> \<bar>a\<bar> mod b" "\<bar>a\<bar> mod b < b"
    using assms by simp_all
  have "a smod b = \<bar>a\<bar> mod b \<or> a smod b = - (\<bar>a\<bar> mod b) \<or> a smod b = 0"
    using assms unfolding signed_modulo_int_def by (auto simp: sgn_if)
  with m assms show ?thesis
    by linarith
qed

lemma smod_nonneg: "0 \<le> (a::int) \<Longrightarrow> 0 < b \<Longrightarrow> a smod b = a mod b"
  unfolding signed_modulo_int_def by (auto simp: sgn_if)

lemma sint_c_rem:
  assumes "0 < sint b"
  shows "sint (c_rem a b) = sint a smod sint b"
proof -
  from smod_bounds [OF assms, of "sint a"] sint32_range [of b]
  have "- (2 ^ 31) \<le> sint a smod sint b" "sint a smod sint b < 2 ^ 31"
    by linarith+
  then show ?thesis
    unfolding c_rem_def by (rule sint_word_of_int_exact)
qed

lemma body_SomeE:
  assumes "file_read_at_body fs i st = Some st'"
  obtains c where "0 < sint c" "sint c \<le> sint (size_left st)"
    "byte_to_sector fs i (file_ofs st) \<noteq> - 1"
    "st' = st\<lparr>mem := buffer_cache_read fs (byte_to_sector fs i (file_ofs st)) (buffer_ptr st) (mem st),
                     buffer_ptr := buffer_ptr st + sint c,
                     file_ofs := file_ofs st + c,
                     size_left := size_left st - c,
                     bytes_read := bytes_read st + c,
                     cache_calls := cache_calls st @
                       [Buffer_cache_read (byte_to_sector fs i (file_ofs st)) (buffer_ptr st),
                        Cache_read_ahead (byte_to_sector fs i (file_ofs st))]\<rparr>"
proof -
  define inode_left where "inode_left = inode_length fs i - file_ofs st"
  define sector_left where
    "sector_left = BLOCK_SECTOR_SIZE fs - c_rem (file_ofs st) (BLOCK_SECTOR_SIZE fs)"
  define min_left where
    "min_left = (if sint inode_left < sint sector_left then inode_left else sector_left)"
  define c where "c = (if sint (size_left st) < sint min_left then size_left st else min_left)"
  have le: "sint c \<le> sint (size_left st)"
    by (simp add: c_def)
  from assms have gt: "0 < sint c" and ne: "byte_to_sector fs i (file_ofs st) \<noteq> - 1"
    and eq: "st' = st\<lparr>mem := buffer_cache_read fs (byte_to_sector fs i (file_ofs st)) (buffer_ptr st) (mem st),
                     buffer_ptr := buffer_ptr st + sint c,
                     file_ofs := file_ofs st + c,
                     size_left := size_left st - c,
                     bytes_read := bytes_read st + c,
                     cache_calls := cache_calls st @
                       [Buffer_cache_read (byte_to_sector fs i (file_ofs st)) (buffer_ptr st),
                        Cache_read_ahead (byte_to_sector fs i (file_ofs st))]\<rparr>"
    unfolding file_read_at_body_def Let_def c_def min_left_def sector_left_def inode_left_def
    by (auto split: if_splits)
  from gt le ne eq show thesis
    by (rule that)
qed

section \<open>How many bytes a read returns\<close>

lemma body_int:
  fixes fs i st
  defines "B \<equiv> sint (BLOCK_SECTOR_SIZE fs)"
  defines "L \<equiv> sint (inode_length fs i)"
  defines "ofs \<equiv> sint (file_ofs st)"
  defines "S \<equiv> sint (size_left st)"
  assumes B: "0 < B" "B \<le> 2 ^ 30"
    and range: "- (2 ^ 31) \<le> L - ofs" "L - ofs < 2 ^ 31"
    and S: "0 < S"
  shows "(byte_to_sector fs i (file_ofs st) = - 1 \<or> L \<le> ofs \<longrightarrow>
            file_read_at_body fs i st = None) \<and>
         (byte_to_sector fs i (file_ofs st) \<noteq> - 1 \<and> ofs < L \<longrightarrow>
            (\<exists>c st'. file_read_at_body fs i st = Some st' \<and> 0 < sint c \<and>
               sint c \<le> S \<and> sint c \<le> L - ofs \<and>
               size_left st' = size_left st - c \<and> file_ofs st' = file_ofs st + c \<and>
               bytes_read st' = bytes_read st + c))"
proof -
  define inode_left where "inode_left = inode_length fs i - file_ofs st"
  define sector_ofs where "sector_ofs = c_rem (file_ofs st) (BLOCK_SECTOR_SIZE fs)"
  define sector_left where "sector_left = BLOCK_SECTOR_SIZE fs - sector_ofs"
  define min_left where
    "min_left = (if sint inode_left < sint sector_left then inode_left else sector_left)"
  define c where "c = (if sint (size_left st) < sint min_left then size_left st else min_left)"
  have il: "sint inode_left = L - ofs"
    unfolding inode_left_def L_def ofs_def using range
    by (intro sint_diff_exact) (simp_all add: L_def ofs_def)
  have so: "sint sector_ofs = ofs smod B"
    unfolding sector_ofs_def ofs_def B_def using B(1)
    by (intro sint_c_rem) (simp add: B_def)
  from smod_bounds [OF B(1), of ofs] have sob: "- B < ofs smod B" "ofs smod B < B"
    by simp_all
  have sl: "sint sector_left = B - ofs smod B"
    unfolding sector_left_def using sob B
    by (subst sint_diff_exact) (simp_all add: so B_def [symmetric])
  have sl_pos: "0 < sint sector_left"
    using sl sob by simp
  have ml: "sint min_left = min (L - ofs) (sint sector_left)"
    by (simp add: min_left_def il min_def)
  have cm: "sint c = min S (sint min_left)"
    by (simp add: c_def S_def min_def)
  have body: "file_read_at_body fs i st =
    (if byte_to_sector fs i (file_ofs st) = - 1 \<or> sint c \<le> 0 then None
     else Some (st\<lparr>mem := buffer_cache_read fs (byte_to_sector fs i (file_ofs st)) (buffer_ptr st) (mem st),
                     buffer_ptr := buffer_ptr st + sint c,
                     file_ofs := file_ofs st + c,
                     size_left := size_left st - c,
                     bytes_read := bytes_read st + c,
                     cache_calls := cache_calls st @
                       [Buffer_cache_read (byte_to_sector fs i (file_ofs st)) (buffer_ptr st),
                        Cache_read_ahead (byte_to_sector fs i (file_ofs st))]\<rparr>))"
    unfolding file_read_at_body_def Let_def c_def min_left_def sector_left_def sector_ofs_def
      inode_left_def
    by simp
  have c_le0: "sint c \<le> 0 \<longleftrightarrow> L \<le> ofs"
    using cm ml sl_pos S by (auto simp: min_def)
  have c_bounds: "sint c \<le> S" "sint c \<le> L - ofs"
    using cm ml by (auto simp: min_def)
  show ?thesis
  proof (intro conjI impI)
    assume "byte_to_sector fs i (file_ofs st) = - 1 \<or> L \<le> ofs"
    then show "file_read_at_body fs i st = None"
      using body c_le0 by auto
  next
    assume a: "byte_to_sector fs i (file_ofs st) \<noteq> - 1 \<and> ofs < L"
    then have "0 < sint c" using c_le0 by simp
    with a body c_bounds show "\<exists>c st'. file_read_at_body fs i st = Some st' \<and> 0 < sint c \<and>
               sint c \<le> S \<and> sint c \<le> L - ofs \<and>
               size_left st' = size_left st - c \<and> file_ofs st' = file_ofs st + c \<and>
               bytes_read st' = bytes_read st + c"
      by (intro exI [of _ c]) simp
  qed
qed


lemma loop_count:
  assumes "0 < sint (BLOCK_SECTOR_SIZE fs)" "sint (BLOCK_SECTOR_SIZE fs) \<le> 2 ^ 30"
    and "0 \<le> sint (inode_length fs i)"
    and "sint (inode_length fs i) - sint (file_ofs st) < 2 ^ 31"
    and "\<forall>p. sint (file_ofs st) \<le> sint p \<and> sint p < sint (inode_length fs i) \<longrightarrow>
           byte_to_sector fs i p \<noteq> - 1"
    and "0 \<le> sint (size_left st)"
  shows "bytes_read (file_read_at_loop fs i st) =
    bytes_read st +
    word_of_int (max 0 (min (sint (size_left st)) (sint (inode_length fs i) - sint (file_ofs st))))"
  using assms
proof (induction fs i st rule: file_read_at_loop.induct)
  case (1 fs i st)
  define L where "L = sint (inode_length fs i)"
  define ofs where "ofs = sint (file_ofs st)"
  define S where "S = sint (size_left st)"
  note B = "1.prems"(1,2)
  have L0: "0 \<le> L" and up: "L - ofs < 2 ^ 31" and S0: "0 \<le> S"
    using "1.prems" by (simp_all add: L_def ofs_def S_def)
  have low: "- (2 ^ 31) \<le> L - ofs"
    using L0 sint32_range [of "file_ofs st"] by (simp add: ofs_def)
  show ?case
  proof (cases "0 < S")
    case False
    with S0 have "S = 0" by simp
    then have "max 0 (min S (L - ofs)) = 0" by simp
    moreover have "file_read_at_loop fs i st = st"
      using False by (simp add: loop_stop S_def)
    ultimately show ?thesis
      by (simp add: S_def L_def ofs_def)
  next
    case True
    note step = body_int [OF B, of i st, folded L_def ofs_def S_def, OF low up True]
    show ?thesis
    proof (cases "ofs < L")
      case False
      with step have "file_read_at_body fs i st = None" by simp
      then have "file_read_at_loop fs i st = st" by (rule loop_break)
      moreover from False have "max 0 (min S (L - ofs)) = 0" by simp
      ultimately show ?thesis
        by (simp add: S_def L_def ofs_def)
    next
      case lt: True
      have "byte_to_sector fs i (file_ofs st) \<noteq> - 1"
        using "1.prems"(5) lt by (simp add: L_def ofs_def)
      with step lt obtain c st' where
        body: "file_read_at_body fs i st = Some st'" and c: "0 < sint c" "sint c \<le> S"
          "sint c \<le> L - ofs"
        and st': "size_left st' = size_left st - c" "file_ofs st' = file_ofs st + c"
          "bytes_read st' = bytes_read st + c"
        by blast
      have S': "sint (size_left st') = S - sint c"
        unfolding st' S_def using c sint32_range [of "size_left st"]
        by (intro sint_diff_exact) (simp_all add: S_def)
      have ofs': "sint (file_ofs st') = ofs + sint c"
        unfolding st' ofs_def using c sint32_range [of "file_ofs st"] sint32_range [of "inode_length fs i"]
        by (intro sint_add_exact) (simp_all add: ofs_def L_def)
      have "bytes_read (file_read_at_loop fs i st') =
          bytes_read st' +
          word_of_int (max 0 (min (sint (size_left st')) (sint (inode_length fs i) - sint (file_ofs st'))))"
      proof (rule "1.IH" [OF _ body B])
        show "0 < sint (size_left st)" using True by (simp add: S_def)
        show "0 \<le> sint (inode_length fs i)" using L0 by (simp add: L_def)
        show "sint (inode_length fs i) - sint (file_ofs st') < 2 ^ 31"
          using up c ofs' by (simp add: L_def)
        show "\<forall>p. sint (file_ofs st') \<le> sint p \<and> sint p < sint (inode_length fs i) \<longrightarrow>
           byte_to_sector fs i p \<noteq> - 1"
          using "1.prems"(5) ofs' c by (simp add: ofs_def)
        show "0 \<le> sint (size_left st')" using S' c by simp
      qed
      also have "\<dots> = bytes_read st + (word_of_int (sint c) +
          word_of_int (max 0 (min (S - sint c) (L - (ofs + sint c)))))"
        by (simp add: st' S' [unfolded st'] ofs' [unfolded st'] L_def add.assoc)
      also have "max 0 (min (S - sint c) (L - (ofs + sint c))) = min S (L - ofs) - sint c"
        using c by (simp add: min_def)
      also have "word_of_int (sint c) + word_of_int (min S (L - ofs) - sint c)
          = (word_of_int (max 0 (min S (L - ofs))) :: 32 word)"
        using c by (simp add: min_def flip: of_int_add)
      finally show ?thesis
        using loop_step [OF _ body] True by (simp add: S_def L_def ofs_def)
    qed
  qed
qed

text \<open>
  Claim C3. Sectors have a positive size of at most \<open>2^30\<close> bytes, the inode's length is
  not negative and every offset from the one read at up to the length has a sector. Then a
  read of \<open>size >= 0\<close> bytes whose end \<open>offset + size\<close> lies beyond the length returns
  exactly \<open>length - offset\<close>, or 0 when the offset is at or beyond the length; and a read
  of no bytes returns 0, whatever the file system.
\<close>

theorem file_read_at_truncation:
  assumes "0 < sint (BLOCK_SECTOR_SIZE fs)" "sint (BLOCK_SECTOR_SIZE fs) \<le> 2 ^ 30"
    and "0 \<le> sint (inode_length fs (inode file))"
    and "\<forall>p. sint ofs \<le> sint p \<and> sint p < sint (inode_length fs (inode file)) \<longrightarrow>
           byte_to_sector fs (inode file) p \<noteq> - 1"
    and "0 \<le> sint size'"
  shows "(sint (inode_length fs (inode file)) < sint ofs + sint size' \<longrightarrow>
      sint (bytes_read (file_read_at fs file buffer size' ofs)) =
        (if sint (inode_length fs (inode file)) \<le> sint ofs then 0
         else sint (inode_length fs (inode file)) - sint ofs)) \<and>
    bytes_read (file_read_at fs file buffer 0 ofs) = 0"
proof (intro conjI impI)
  show "bytes_read (file_read_at fs file buffer 0 ofs) = 0"
    by (simp add: file_read_at_def loop_stop)
next
  define L where "L = sint (inode_length fs (inode file))"
  assume over: "sint (inode_length fs (inode file)) < sint ofs + sint size'"
  then have up: "L - sint ofs < 2 ^ 31"
    using sint32_range [of size'] by (simp add: L_def)
  have m: "max 0 (min (sint size') (L - sint ofs)) = (if L \<le> sint ofs then 0 else L - sint ofs)"
    using over by (simp add: L_def min_def)
  have "bytes_read (file_read_at fs file buffer size' ofs) =
      word_of_int (max 0 (min (sint size') (L - sint ofs)))"
    unfolding file_read_at_def L_def
    by (subst loop_count) (use assms up in \<open>simp_all add: L_def\<close>)
  also note m
  finally have "sint (bytes_read (file_read_at fs file buffer size' ofs)) =
      sint (word_of_int (if L \<le> sint ofs then 0 else L - sint ofs) :: 32 word)"
    by simp
  also have "\<dots> = (if L \<le> sint ofs then 0 else L - sint ofs)"
    using up by (intro sint_word_of_int_exact) simp_all
  finally show "sint (bytes_read (file_read_at fs file buffer size' ofs)) =
        (if sint (inode_length fs (inode file)) \<le> sint ofs then 0
         else sint (inode_length fs (inode file)) - sint ofs)"
    by (simp add: L_def)
qed

theorem file_read_at_truncation_witness:
  "sint (inode_length three_sector_file (inode some_file)) < sint (1000 :: off_t) + sint (2000 :: off_t) \<and>
   sint (bytes_read (file_read_at three_sector_file some_file (\<lambda>a. 0) 2000 1000)) = 536 \<and>
   sint (bytes_read (file_read_at three_sector_file some_file (\<lambda>a. 0) 5 1536)) = 0"
proof -
  have fs: "0 < sint (BLOCK_SECTOR_SIZE three_sector_file)"
    "sint (BLOCK_SECTOR_SIZE three_sector_file) \<le> 2 ^ 30"
    "0 \<le> sint (inode_length three_sector_file (inode some_file))"
    by (simp_all add: three_sector_file_def)
  have mapped: "\<forall>p. sint (ofs :: off_t) \<le> sint p \<and>
      sint p < sint (inode_length three_sector_file (inode some_file)) \<longrightarrow>
      byte_to_sector three_sector_file (inode some_file) p \<noteq> - 1" if "0 \<le> sint ofs" for ofs
    using that by (simp add: three_sector_file_def)
  have a: "0 \<le> sint (2000 :: off_t)" "0 \<le> sint (5 :: off_t)"
    by simp_all
  from file_read_at_truncation [OF fs mapped a(1), of 1000 "\<lambda>a. 0"]
    file_read_at_truncation [OF fs mapped a(2), of 1536 "\<lambda>a. 0"]
  show ?thesis
    by (simp add: three_sector_file_def)
qed

section \<open>What a read asks of the cache and stores\<close>

lemma last_fetch_append_iteration:
  "last_fetch (cs @ [Buffer_cache_read s dst, Cache_read_ahead s]) = Some (s, dst)"
  by (induction cs rule: last_fetch.induct) simp_all

lemma fetched_append: "fetched (xs @ ys) = fetched xs @ fetched ys"
  by (induction xs rule: fetched.induct) simp_all

lemma hints_append: "hints (xs @ ys) = hints xs @ hints ys"
  by (induction xs rule: hints.induct) simp_all

lemma loop_hints:
  "hints (cache_calls st) = fetched (cache_calls st) \<Longrightarrow>
   hints (cache_calls (file_read_at_loop fs i st)) = fetched (cache_calls (file_read_at_loop fs i st))"
proof (induction fs i st rule: file_read_at_loop.induct)
  case (1 fs i st)
  show ?case
  proof (cases "0 < sint (size_left st)")
    case False
    with "1.prems" show ?thesis by (simp add: loop_stop)
  next
    case True
    show ?thesis
    proof (cases "file_read_at_body fs i st")
      case None
      with "1.prems" show ?thesis by (simp add: loop_break)
    next
      case (Some st')
      then have "hints (cache_calls st') = fetched (cache_calls st')"
        using "1.prems" by (auto elim!: body_SomeE simp: hints_append fetched_append)
      from "1.IH" [OF True Some this] loop_step [OF True Some] show ?thesis
        by simp
    qed
  qed
qed

lemma hints_are_fetched:
  "hints (cache_calls (file_read_at fs file buffer size' ofs)) =
   fetched (cache_calls (file_read_at fs file buffer size' ofs))"
  unfolding file_read_at_def by (rule loop_hints) simp

lemmas read_eval = file_read_at_def file_read_at_loop.simps file_read_at_body_def
  three_sector_file_def some_file_def c_rem_def buffer_cache_read_def Let_def

text \<open>
  Claim C4. Every call issues one hint for each sector it fetches, and the hint is given
  the sector fetched. Reading the whole of the three-sector file fetches sectors 0, 1 and
  2, and the hints are given sectors 0, 1 and 2, each the sector just read, not 1, 2
  and 3.
\<close>

theorem read_ahead_names_sector_just_read:
  "hints (cache_calls (file_read_at fs file buffer size' ofs)) =
     fetched (cache_calls (file_read_at fs file buffer size' ofs)) \<and>
   fetched (cache_calls (file_read_at three_sector_file some_file (\<lambda>a. 0) 1536 0)) = [0, 1, 2] \<and>
   hints (cache_calls (file_read_at three_sector_file some_file (\<lambda>a. 0) 1536 0)) = [0, 1, 2] \<and>
   bytes_read (file_read_at three_sector_file some_file (\<lambda>a. 0) 1536 0) = 1536"
  using hints_are_fetched [of fs "file" buffer size' ofs] by (simp add: read_eval)

text \<open>
  Claim C1. Two bytes read at offset 511 of the three-sector file, the last byte of
  sector 0 and the first of sector 1, are 255 and 7 on disk. The call returns 2, but the
  first byte it leaves in the buffer is 0, byte 0 of sector 0: the fetch stored the sector
  from its start, not from \<open>sector_ofs\<close>.
\<close>

theorem boundary_read_takes_sector_start:
  "bytes_read (file_read_at three_sector_file some_file (\<lambda>a. 170) 2 511) = 2 \<and>
   sector_bytes three_sector_file 0 511 = 255 \<and>
   sector_bytes three_sector_file 1 0 = 7 \<and>
   mem (file_read_at three_sector_file some_file (\<lambda>a. 170) 2 511) 0 = 0 \<and>
   mem (file_read_at three_sector_file some_file (\<lambda>a. 170) 2 511) 0 = sector_bytes three_sector_file 0 0 \<and>
   mem (file_read_at three_sector_file some_file (\<lambda>a. 170) 2 511) 1 = 7"
  by (simp add: read_eval)

lemma body_cursor:
  assumes "file_read_at_body fs i st = Some st'" "cursor_ok st"
  shows "cursor_ok st' \<and> sint (bytes_read st) < sint (bytes_read st') \<and>
    cache_calls st' = cache_calls st @
      [Buffer_cache_read (byte_to_sector fs i (file_ofs st)) (sint (bytes_read st)),
       Cache_read_ahead (byte_to_sector fs i (file_ofs st))] \<and>
    mem st' = buffer_cache_read fs (byte_to_sector fs i (file_ofs st)) (sint (bytes_read st)) (mem st)"
proof -
  from assms(1) obtain c where c: "0 < sint c" "sint c \<le> sint (size_left st)"
    and st': "st' = st\<lparr>mem := buffer_cache_read fs (byte_to_sector fs i (file_ofs st)) (buffer_ptr st) (mem st),
                     buffer_ptr := buffer_ptr st + sint c,
                     file_ofs := file_ofs st + c,
                     size_left := size_left st - c,
                     bytes_read := bytes_read st + c,
                     cache_calls := cache_calls st @
                       [Buffer_cache_read (byte_to_sector fs i (file_ofs st)) (buffer_ptr st),
                        Cache_read_ahead (byte_to_sector fs i (file_ofs st))]\<rparr>"
    by (rule body_SomeE)
  from assms(2) have inv: "0 \<le> sint (bytes_read st)" "0 \<le> sint (size_left st)"
    "sint (bytes_read st) + sint (size_left st) < 2 ^ 31" "buffer_ptr st = sint (bytes_read st)"
    by (simp_all add: cursor_ok_def)
  have s: "sint (size_left st - c) = sint (size_left st) - sint c"
    using c inv by (intro sint_diff_exact) simp_all
  have b: "sint (bytes_read st + c) = sint (bytes_read st) + sint c"
    using c inv by (intro sint_add_exact) simp_all
  show ?thesis
    using c inv s b by (simp add: st' cursor_ok_def)
qed

lemma loop_overrun:
  assumes "cursor_ok st"
  shows "cursor_ok (file_read_at_loop fs i st) \<and>
    (file_read_at_loop fs i st = st \<or>
     (\<exists>s dst. last_fetch (cache_calls (file_read_at_loop fs i st)) = Some (s, dst) \<and>
        sint (bytes_read st) \<le> dst \<and> dst < sint (bytes_read (file_read_at_loop fs i st)) \<and>
        (\<forall>a. dst \<le> a \<and> a < dst + sint (BLOCK_SECTOR_SIZE fs) \<longrightarrow>
           mem (file_read_at_loop fs i st) a = sector_bytes fs s (a - dst))))"
  using assms
proof (induction fs i st rule: file_read_at_loop.induct)
  case (1 fs i st)
  show ?case
  proof (cases "0 < sint (size_left st)")
    case False
    with "1.prems" show ?thesis by (simp add: loop_stop)
  next
    case True
    show ?thesis
    proof (cases "file_read_at_body fs i st")
      case None
      with "1.prems" show ?thesis by (simp add: loop_break)
    next
      case (Some st')
      define s where "s = byte_to_sector fs i (file_ofs st)"
      define r where "r = file_read_at_loop fs i st'"
      from body_cursor [OF Some "1.prems"]
      have ok': "cursor_ok st'" and lt: "sint (bytes_read st) < sint (bytes_read st')"
        and calls: "cache_calls st' = cache_calls st @
          [Buffer_cache_read s (sint (bytes_read st)), Cache_read_ahead s]"
        and mem': "mem st' = buffer_cache_read fs s (sint (bytes_read st)) (mem st)"
        by (simp_all add: s_def)
      have r: "file_read_at_loop fs i st = r"
        unfolding r_def by (rule loop_step [OF True Some])
      from "1.IH" [OF True Some ok']
      have ok_r: "cursor_ok r"
        and alt: "r = st' \<or>
          (\<exists>s dst. last_fetch (cache_calls r) = Some (s, dst) \<and>
            sint (bytes_read st') \<le> dst \<and> dst < sint (bytes_read r) \<and>
            (\<forall>a. dst \<le> a \<and> a < dst + sint (BLOCK_SECTOR_SIZE fs) \<longrightarrow>
               mem r a = sector_bytes fs s (a - dst)))"
        by (simp_all add: r_def)
      from alt have "\<exists>s dst. last_fetch (cache_calls r) = Some (s, dst) \<and>
            sint (bytes_read st) \<le> dst \<and> dst < sint (bytes_read r) \<and>
            (\<forall>a. dst \<le> a \<and> a < dst + sint (BLOCK_SECTOR_SIZE fs) \<longrightarrow>
               mem r a = sector_bytes fs s (a - dst))"
      proof
        assume "r = st'"
        then show ?thesis
          using lt calls mem'
          by (intro exI [of _ s] exI [of _ "sint (bytes_read st)"])
            (simp add: last_fetch_append_iteration buffer_cache_read_def)
      next
        assume "\<exists>s dst. last_fetch (cache_calls r) = Some (s, dst) \<and>
            sint (bytes_read st') \<le> dst \<and> dst < sint (bytes_read r) \<and>
            (\<forall>a. dst \<le> a \<and> a < dst + sint (BLOCK_SECTOR_SIZE fs) \<longrightarrow>
               mem r a = sector_bytes fs s (a - dst))"
        then show ?thesis
          using lt by (elim exE conjE) (intro exI conjI; simp)
      qed
      with ok_r r show ?thesis
        by simp
    qed
  qed
qed

lemma stores_append: "stores fs (xs @ ys) m = stores fs ys (stores fs xs m)"
  by (induction fs xs m rule: stores.induct) simp_all

lemma loop_stores:
  "mem st = stores fs (cache_calls st) m0 \<Longrightarrow>
   mem (file_read_at_loop fs i st) = stores fs (cache_calls (file_read_at_loop fs i st)) m0"
proof (induction fs i st rule: file_read_at_loop.induct)
  case (1 fs i st)
  show ?case
  proof (cases "0 < sint (size_left st)")
    case False
    with "1.prems" show ?thesis by (simp add: loop_stop)
  next
    case True
    show ?thesis
    proof (cases "file_read_at_body fs i st")
      case None
      with "1.prems" show ?thesis by (simp add: loop_break)
    next
      case (Some st')
      then have "mem st' = stores fs (cache_calls st') m0"
        using "1.prems" by (auto elim!: body_SomeE simp: stores_append)
      from "1.IH" [OF True Some this] loop_step [OF True Some] show ?thesis
        by simp
    qed
  qed
qed

lemma read_at_whole_sectors:
  "mem (file_read_at fs file buffer size' ofs) =
     stores fs (cache_calls (file_read_at fs file buffer size' ofs)) buffer \<and>
   buffer_ptr (file_read_at fs file buffer size' ofs) =
     sint (bytes_read (file_read_at fs file buffer size' ofs)) \<and>
   (case last_fetch (cache_calls (file_read_at fs file buffer size' ofs)) of
      None \<Rightarrow>
        bytes_read (file_read_at fs file buffer size' ofs) = 0 \<and>
        mem (file_read_at fs file buffer size' ofs) = buffer
    | Some (s, dst) \<Rightarrow>
        0 \<le> dst \<and> dst < sint (bytes_read (file_read_at fs file buffer size' ofs)) \<and>
        (\<forall>a. dst \<le> a \<and> a < dst + sint (BLOCK_SECTOR_SIZE fs) \<longrightarrow>
           mem (file_read_at fs file buffer size' ofs) a = sector_bytes fs s (a - dst)))"
proof -
  define st0 where "st0 = \<lparr>buffer_ptr = 0, file_ofs = ofs, size_left = size',
    bytes_read = 0, mem = buffer, cache_calls = []\<rparr>"
  define r where "r = file_read_at fs file buffer size' ofs"
  have r: "r = file_read_at_loop fs (inode file) st0"
    by (simp add: r_def file_read_at_def st0_def)
  have replay: "mem r = stores fs (cache_calls r) buffer"
    unfolding r by (rule loop_stores) (simp add: st0_def)
  have rest: "buffer_ptr r = sint (bytes_read r) \<and>
    (case last_fetch (cache_calls r) of
      None \<Rightarrow> bytes_read r = 0 \<and> mem r = buffer
    | Some (s, dst) \<Rightarrow>
        0 \<le> dst \<and> dst < sint (bytes_read r) \<and>
        (\<forall>a. dst \<le> a \<and> a < dst + sint (BLOCK_SECTOR_SIZE fs) \<longrightarrow>
           mem r a = sector_bytes fs s (a - dst)))"
  proof (cases "0 \<le> sint size'")
    case False
    then have "r = st0"
      unfolding r by (intro loop_stop) (simp add: st0_def)
    then show ?thesis
      by (simp add: st0_def)
  next
    case True
    have "sint size' < 2 ^ 31"
      using sint32_range [of size'] by simp
    with True have "cursor_ok st0"
      by (simp add: cursor_ok_def st0_def)
    from loop_overrun [OF this, of fs "inode file", folded r]
    have ok: "cursor_ok r"
      and alt: "r = st0 \<or>
        (\<exists>s dst. last_fetch (cache_calls r) = Some (s, dst) \<and>
          sint (bytes_read st0) \<le> dst \<and> dst < sint (bytes_read r) \<and>
          (\<forall>a. dst \<le> a \<and> a < dst + sint (BLOCK_SECTOR_SIZE fs) \<longrightarrow>
             mem r a = sector_bytes fs s (a - dst)))"
      by simp_all
    from ok have ptr: "buffer_ptr r = sint (bytes_read r)"
      by (simp add: cursor_ok_def)
    from alt show ?thesis
    proof
      assume "r = st0"
      with ptr show ?thesis by (simp add: st0_def)
    next
      assume "\<exists>s dst. last_fetch (cache_calls r) = Some (s, dst) \<and>
          sint (bytes_read st0) \<le> dst \<and> dst < sint (bytes_read r) \<and>
          (\<forall>a. dst \<le> a \<and> a < dst + sint (BLOCK_SECTOR_SIZE fs) \<longrightarrow>
             mem r a = sector_bytes fs s (a - dst))"
      then obtain s dst where "last_fetch (cache_calls r) = Some (s, dst)"
        "sint (bytes_read st0) \<le> dst" "dst < sint (bytes_read r)"
        "\<forall>a. dst \<le> a \<and> a < dst + sint (BLOCK_SECTOR_SIZE fs) \<longrightarrow>
             mem r a = sector_bytes fs s (a - dst)"
        by blast
      with ptr show ?thesis
        by (simp add: st0_def)
    qed
  qed
  from replay rest show ?thesis
    unfolding r_def by simp
qed

text \<open>
  Claim C10. In an iteration that starts with the cursor \<open>bytes_read\<close> bytes into the
  buffer, as every iteration of a call does, the fetch stores the whole sector, from its
  first byte, at that address. So the memory a call of \<open>file_read_at\<close> leaves is the
  caller's with every fetched sector stored whole where its fetch was told, and the cursor
  ends \<open>bytes_read\<close> bytes into the buffer. When a sector was fetched, the last fetch was
  given an address \<open>dst\<close> below the count returned, and the \<open>BLOCK_SECTOR_SIZE\<close> bytes from
  \<open>dst\<close> on are that sector's: where the last chunk, \<open>bytes_read - dst\<close>, is less than a
  sector, the bytes from \<open>bytes_read\<close> up to \<open>dst + BLOCK_SECTOR_SIZE\<close>, beyond what the call
  returns, have been overwritten. With no fetch the call returns 0 and memory is untouched.
\<close>

theorem file_read_at_stores_whole_sectors:
  "(\<forall>st st'. cursor_ok st \<and> file_read_at_body fs i st = Some st' \<longrightarrow>
      cursor_ok st' \<and>
      mem st' = buffer_cache_read fs (byte_to_sector fs i (file_ofs st))
                  (sint (bytes_read st)) (mem st)) \<and>
   mem (file_read_at fs file buffer size' ofs) =
     stores fs (cache_calls (file_read_at fs file buffer size' ofs)) buffer \<and>
   buffer_ptr (file_read_at fs file buffer size' ofs) =
     sint (bytes_read (file_read_at fs file buffer size' ofs)) \<and>
   (case last_fetch (cache_calls (file_read_at fs file buffer size' ofs)) of
      None \<Rightarrow>
        bytes_read (file_read_at fs file buffer size' ofs) = 0 \<and>
        mem (file_read_at fs file buffer size' ofs) = buffer
    | Some (s, dst) \<Rightarrow>
        0 \<le> dst \<and> dst < sint (bytes_read (file_read_at fs file buffer size' ofs)) \<and>
        (\<forall>a. dst \<le> a \<and> a < dst + sint (BLOCK_SECTOR_SIZE fs) \<longrightarrow>
           mem (file_read_at fs file buffer size' ofs) a = sector_bytes fs s (a - dst)))"
proof -
  have iteration: "\<forall>st st'. cursor_ok st \<and> file_read_at_body fs i st = Some st' \<longrightarrow>
      cursor_ok st' \<and>
      mem st' = buffer_cache_read fs (byte_to_sector fs i (file_ofs st))
                  (sint (bytes_read st)) (mem st)"
    using body_cursor by blast
  show ?thesis
    using iteration read_at_whole_sectors [of fs "file" buffer size' ofs]
    by blast
qed

theorem file_read_at_stores_whole_sectors_witness:
  "cursor_ok \<lparr>buffer_ptr = 0, file_ofs = 0, size_left = 1, bytes_read = 0,
      mem = (\<lambda>a. 170), cache_calls = []\<rparr> \<and>
   (\<exists>st'. file_read_at_body three_sector_file 1
       \<lparr>buffer_ptr = 0, file_ofs = 0, size_left = 1, bytes_read = 0,
        mem = (\<lambda>a. 170), cache_calls = []\<rparr> = Some st' \<and> mem st' 300 = 44) \<and>
   bytes_read (file_read_at three_sector_file some_file (\<lambda>a. 170) 1 0) = 1 \<and>
   last_fetch (cache_calls (file_read_at three_sector_file some_file (\<lambda>a. 170) 1 0)) = Some (0, 0) \<and>
   mem (file_read_at three_sector_file some_file (\<lambda>a. 170) 1 0) 300 =
     sector_bytes three_sector_file 0 300 \<and>
   sector_bytes three_sector_file 0 300 = 44"
proof -
  define st0 where "st0 = \<lparr>buffer_ptr = 0, file_ofs = 0, size_left = 1,
    bytes_read = 0, mem = (\<lambda>a. 170), cache_calls = []\<rparr>"
  note whole = file_read_at_stores_whole_sectors [of three_sector_file 1 some_file "\<lambda>a. 170" 1 0]
  have ok: "cursor_ok st0"
    by (simp add: cursor_ok_def st0_def)
  obtain st' where body: "file_read_at_body three_sector_file 1 st0 = Some st'"
    by (simp add: file_read_at_body_def three_sector_file_def c_rem_def Let_def st0_def)
  from whole [THEN conjunct1, rule_format, of st0 st'] ok body
  have "mem st' = buffer_cache_read three_sector_file
      (byte_to_sector three_sector_file 1 (file_ofs st0)) (sint (bytes_read st0)) (mem st0)"
    by simp
  then have first: "mem st' 300 = 44"
    by (simp add: buffer_cache_read_def three_sector_file_def st0_def)
  have n: "bytes_read (file_read_at three_sector_file some_file (\<lambda>a. 170) 1 0) = 1"
    by (simp add: read_eval)
  have lf: "last_fetch (cache_calls (file_read_at three_sector_file some_file (\<lambda>a. 170) 1 0))
      = Some (0, 0)"
    by (simp add: read_eval)
  from whole [THEN conjunct2, THEN conjunct2, THEN conjunct2]
  have "\<forall>a. 0 \<le> a \<and> a < 0 + sint (BLOCK_SECTOR_SIZE three_sector_file) \<longrightarrow>
      mem (file_read_at three_sector_file some_file (\<lambda>a. 170) 1 0) a =
      sector_bytes three_sector_file 0 (a - 0)"
    unfolding lf by simp
  then have "mem (file_read_at three_sector_file some_file (\<lambda>a. 170) 1 0) 300 =
      sector_bytes three_sector_file 0 300"
    by (simp add: three_sector_file_def)
  moreover have "sector_bytes three_sector_file 0 300 = 44"
    by (simp add: three_sector_file_def)
  ultimately show ?thesis
    using n lf ok body first unfolding st0_def by blast
qed

section \<open>The handle behind a short buffer\<close>

text \<open>
  Claim C7. A caller reads 16 bytes at offset 0 of the three-sector file into a 16-byte
  buffer, with the handle in the block right behind the buffer. The call returns 16, and
  the handle it leaves is not the handle it was given: the whole sector was stored from
  the buffer's start, so the handle's bytes are bytes 16 to 24 of sector 0, its \<open>pos\<close> no
  longer 0, its inode pointer no longer 1 and its \<open>deny_write\<close> set.
\<close>

theorem read_at_overwrites_handle:
  "load_file 16 handle_behind_buffer = some_file \<and>
   bytes_read (file_read_at_ptr three_sector_file 16 handle_behind_buffer 16 0) = 16 \<and>
   mem (file_read_at_ptr three_sector_file 16 handle_behind_buffer 16 0) 20 =
     sector_bytes three_sector_file 0 20 \<and>
   pos (handle_after 16 (file_read_at_ptr three_sector_file 16 handle_behind_buffer 16 0)) =
     387323156 \<and>
   inode (handle_after 16 (file_read_at_ptr three_sector_file 16 handle_behind_buffer 16 0)) =
     319951120 \<and>
   deny_write (handle_after 16 (file_read_at_ptr three_sector_file 16 handle_behind_buffer 16 0)) \<and>
   handle_after 16 (file_read_at_ptr three_sector_file 16 handle_behind_buffer 16 0) \<noteq> some_file"
  by (simp add: file_read_at_ptr_def handle_after_def load_file_def le32_def
      handle_behind_buffer_def read_eval)

end
